theory Spec2Isabelle
  imports Main "HOL-Library.Multiset"
begin

section \<open>Python values, the file system, the log, the heap and the random source\<close>

text \<open>
  A Python \<open>str\<close> is a sequence of Unicode code points; the names of the roster are Chinese,
  so a string is modelled as the list of its code points.
\<close>

type_synonym pystr = "nat list"

type_synonym addr = nat

datatype py_error = OSError | IndexError

text \<open>
  What \<open>os.path.exists\<close>, \<open>open\<close> and \<open>f.read()\<close> see at a path: nothing, a file whose
  decoded text is known, or something that exists and raises when it is opened or read as
  UTF-8 text (a directory, a file without read permission, bytes that do not decode).
\<close>

datatype fs_entry = Text pystr | Unreadable

text \<open>
  The three \<open>logger\<close> calls of the modelled functions:
  \<open>logger.error\<close> in \<open>read_names_from_file\<close>, \<open>logger.debug\<close> in \<open>get_next_name\<close> and
  \<open>logger.info\<close> in \<open>load_names\<close> (with the number of names loaded).
\<close>

datatype log_record = ReadFailed | Reshuffled | Loaded nat

text \<open>
  The world outside the window object. \<open>creatable\<close> says whether \<open>open(path, "w")\<close>
  succeeds at a path. \<open>store\<close> is the heap of list objects: an address is an index into
  it, and a new list is allocated at its end. \<open>tape\<close> is the sequence of raw values the
  random generator will produce and \<open>drawn\<close> the number of them already used.
\<close>

record world =
  files :: "string \<rightharpoonup> fs_entry"
  creatable :: "string \<Rightarrow> bool"
  logged :: "log_record list"
  store :: "pystr list list"
  tape :: "nat \<Rightarrow> nat"
  drawn :: nat

text \<open>The fields of \<open>FloatingWindow\<close> that the selector uses; the two lists are references.\<close>

record floating_window =
  names :: addr
  shuffled_names :: addr
  current_index :: int


section \<open>String operations of Python used by the loader\<close>

text \<open>The line boundaries of \<open>str.splitlines\<close>.\<close>

definition is_linebreak :: "nat \<Rightarrow> bool" where
  "is_linebreak c =
     (c = 0x0A \<or> c = 0x0B \<or> c = 0x0C \<or> c = 0x0D \<or> c = 0x1C \<or> c = 0x1D \<or> c = 0x1E
      \<or> c = 0x85 \<or> c = 0x2028 \<or> c = 0x2029)"

text \<open>The characters \<open>str.strip()\<close> removes: those for which \<open>str.isspace\<close> holds.\<close>

definition is_space :: "nat \<Rightarrow> bool" where
  "is_space c =
     ((0x09 \<le> c \<and> c \<le> 0x0D) \<or> (0x1C \<le> c \<and> c \<le> 0x20) \<or> c = 0x85 \<or> c = 0xA0
      \<or> c = 0x1680 \<or> (0x2000 \<le> c \<and> c \<le> 0x200A) \<or> c = 0x2028 \<or> c = 0x2029
      \<or> c = 0x202F \<or> c = 0x205F \<or> c = 0x3000)"

text \<open>
  \<open>s.splitlines()\<close>: the text is cut at every line boundary, \<open>\r\n\<close> counting as one,
  the boundaries are not kept, and no empty last line is produced when the text ends with
  a boundary. \<open>cur\<close> holds the characters of the line being read, last one first.
\<close>

fun splitlines_from :: "pystr \<Rightarrow> pystr \<Rightarrow> pystr list" where
  "splitlines_from cur [] = (if cur = [] then [] else [rev cur])"
| "splitlines_from cur (c # cs) =
     (if c = 0x0D then
        (case cs of
           [] \<Rightarrow> [rev cur]
         | d # ds \<Rightarrow> if d = 0x0A then rev cur # splitlines_from [] ds
                    else rev cur # splitlines_from [] (d # ds))
      else if is_linebreak c then rev cur # splitlines_from [] cs
      else splitlines_from (c # cur) cs)"

definition splitlines :: "pystr \<Rightarrow> pystr list" where
  "splitlines s = splitlines_from [] s"

definition strip :: "pystr \<Rightarrow> pystr" where
  "strip s = rev (dropWhile is_space (rev (dropWhile is_space s)))"

text \<open>\<open>sep.join(xs)\<close>.\<close>

fun join :: "pystr \<Rightarrow> pystr list \<Rightarrow> pystr" where
  "join sep [] = []"
| "join sep [x] = x"
| "join sep (x # y # ys) = x @ sep @ join sep (y # ys)"


section \<open>The roster loader\<close>

text \<open>The two list literals of \<open>read_names_from_file\<close>.\<close>

definition default_names :: "pystr list" where
  "default_names =
     [[0x5C0F, 0x660E], [0x674E, 0x534E], [0x5F20, 0x4E09],
      [0x674E, 0x56DB], [0x738B, 0x4E94], [0x8D75, 0x516D]]"

definition fallback_names :: "pystr list" where
  "fallback_names =
     [[0x5C0F, 0x660E], [0x674E, 0x534E], [0x5F20, 0x4E09], [0x674E, 0x56DB]]"

text \<open>
  \<^verbatim>\<open>
  def read_names_from_file(file_path):
      if not os.path.exists(file_path):
          default_names = [...]
          with open(file_path, "w", encoding="utf-8") as f:
              f.write("\n".join(default_names))
          return default_names
      try:
          with open(file_path, "r", encoding="utf-8") as f:
              names = f.read().splitlines()
          return [name.strip() for name in names if name.strip()]
      except Exception as e:
          logger.error(...)
          return [...]
  \<close>
  The write of the first branch is outside the \<open>try\<close>: when the file cannot be created the
  exception leaves the function. The function returns a list it has just built, which
  nothing else refers to; the model returns its value and the caller allocates it.
\<close>

definition read_names_from_file :: "string \<Rightarrow> world \<Rightarrow> (py_error + pystr list) \<times> world" where
  "read_names_from_file file_path w =
     (case files w file_path of
        None \<Rightarrow>
          if creatable w file_path
          then (Inr default_names,
                w\<lparr>files := (files w)(file_path \<mapsto> Text (join [0x0A] default_names))\<rparr>)
          else (Inl OSError, w)
      | Some Unreadable \<Rightarrow> (Inr fallback_names, w\<lparr>logged := logged w @ [ReadFailed]\<rparr>)
      | Some (Text content) \<Rightarrow>
          (Inr [strip name. name \<leftarrow> splitlines content, strip name \<noteq> []], w))"


section \<open>The no-repeat selector\<close>

text \<open>
  \<open>random.shuffle(x)\<close> of the Python library:
  \<^verbatim>\<open>
  for i in reversed(range(1, len(x))):
      j = randbelow(i + 1)
      x[i], x[j] = x[j], x[i]
  \<close>
  \<open>randbelow n\<close> gives a value below \<open>n\<close>: the next raw value of the tape, reduced.
\<close>

definition randbelow :: "nat \<Rightarrow> world \<Rightarrow> nat \<times> world" where
  "randbelow n w = (tape w (drawn w) mod n, w\<lparr>drawn := drawn w + 1\<rparr>)"

fun shuffle_loop :: "nat \<Rightarrow> 'a list \<Rightarrow> world \<Rightarrow> 'a list \<times> world" where
  "shuffle_loop 0 x w = (x, w)"
| "shuffle_loop (Suc k) x w =
     (case randbelow (Suc k + 1) w of
        (j, w') \<Rightarrow> shuffle_loop k (x[Suc k := x ! j, j := x ! Suc k]) w')"

text \<open>The list at address \<open>a\<close> is shuffled in place.\<close>

definition random_shuffle :: "addr \<Rightarrow> world \<Rightarrow> world" where
  "random_shuffle a w =
     (case shuffle_loop (length (store w ! a) - 1) (store w ! a) w of
        (x, w') \<Rightarrow> w'\<lparr>store := (store w')[a := x]\<rparr>)"

text \<open>
  \<^verbatim>\<open>
  def reset_shuffle(self):
      self.shuffled_names = self.names.copy()
      random.shuffle(self.shuffled_names)
      self.current_index = 0
  \<close>
\<close>

definition reset_shuffle :: "floating_window \<Rightarrow> world \<Rightarrow> floating_window \<times> world" where
  "reset_shuffle self w =
     (let copy = length (store w);
          w1 = w\<lparr>store := store w @ [store w ! names self]\<rparr>;
          self1 = self\<lparr>shuffled_names := copy\<rparr>;
          w2 = random_shuffle (shuffled_names self1) w1
      in (self1\<lparr>current_index := 0\<rparr>, w2))"

text \<open>
  Subscription \<open>xs[i]\<close> of a Python list: positions \<open>0 .. len - 1\<close> are read directly,
  positions \<open>-len .. -1\<close> are read from the back, every other position raises.
\<close>

definition getitem :: "'a list \<Rightarrow> int \<Rightarrow> py_error + 'a" where
  "getitem xs i =
     (if 0 \<le> i \<and> i < int (length xs) then Inr (xs ! nat i)
      else if i < 0 \<and> - int (length xs) \<le> i then Inr (xs ! nat (int (length xs) + i))
      else Inl IndexError)"

text \<open>The string \<open>"\<dots>"\<close> returned for an empty queue (four code points).\<close>

definition empty_sentinel :: pystr where
  "empty_sentinel = [0x540D, 0x5355, 0x4E3A, 0x7A7A]"

text \<open>
  \<^verbatim>\<open>
  def get_next_name(self):
      if not self.shuffled_names:
          return <sentinel>
      if self.current_index >= len(self.shuffled_names):
          self.reset_shuffle()
          logger.debug(...)
      name = self.shuffled_names[self.current_index]
      self.current_index += 1
      return name
  \<close>
\<close>

definition get_next_name ::
  "floating_window \<Rightarrow> world \<Rightarrow> (py_error + pystr) \<times> floating_window \<times> world" where
  "get_next_name self w =
     (if store w ! shuffled_names self = [] then (Inr empty_sentinel, self, w)
      else
        let (self1, w1) =
              (if current_index self \<ge> int (length (store w ! shuffled_names self))
               then (case reset_shuffle self w of
                       (s, v) \<Rightarrow> (s, v\<lparr>logged := logged v @ [Reshuffled]\<rparr>))
               else (self, w))
        in case getitem (store w1 ! shuffled_names self1) (current_index self1) of
             Inl e \<Rightarrow> (Inl e, self1, w1)
           | Inr name \<Rightarrow> (Inr name, self1\<lparr>current_index := current_index self1 + 1\<rparr>, w1))"

text \<open>
  \<^verbatim>\<open>
  def load_names(self):
      file_path = os.path.join(os.path.dirname(__file__), "names.txt")
      self.names = read_names_from_file(file_path)
      self.reset_shuffle()
      logger.info(...)
  \<close>
  The path depends on where the module is installed and is a parameter here.
\<close>

definition load_names ::
  "string \<Rightarrow> floating_window \<Rightarrow> world \<Rightarrow> (py_error + unit) \<times> floating_window \<times> world" where
  "load_names file_path self w =
     (case read_names_from_file file_path w of
        (Inl e, w1) \<Rightarrow> (Inl e, self, w1)
      | (Inr ns, w1) \<Rightarrow>
          let self1 = self\<lparr>names := length (store w1)\<rparr>;
              w2 = w1\<lparr>store := store w1 @ [ns]\<rparr>;
              (self2, w3) = reset_shuffle self1 w2
          in (Inr (), self2, w3\<lparr>logged := logged w3 @ [Loaded (length ns)]\<rparr>))"

text \<open>
  The selector part of \<open>FloatingWindow.__init__\<close>:
  \<^verbatim>\<open>
  self.names = []
  self.shuffled_names = []
  self.current_index = 0
  ...
  self.load_names()
  \<close>
\<close>

definition floating_window_init ::
  "string \<Rightarrow> world \<Rightarrow> (py_error + unit) \<times> floating_window \<times> world" where
  "floating_window_init file_path w =
     (let a = length (store w);
          w1 = w\<lparr>store := store w @ [[], []]\<rparr>;
          self = \<lparr>names = a, shuffled_names = a + 1, current_index = 0\<rparr>
      in load_names file_path self w1)"


section \<open>Runs of calls, and what the claims speak about\<close>

text \<open>\<open>n\<close> consecutive calls of \<open>get_next_name\<close>, with the values they return.\<close>

fun next_names ::
  "nat \<Rightarrow> floating_window \<Rightarrow> world \<Rightarrow> (py_error + pystr) list \<times> floating_window \<times> world" where
  "next_names 0 self w = ([], self, w)"
| "next_names (Suc n) self w =
     (case get_next_name self w of
        (r, self1, w1) \<Rightarrow>
          (case next_names n self1 w1 of (rs, self2, w2) \<Rightarrow> (r # rs, self2, w2)))"

text \<open>The roster and the shuffle queue of a window, read through its references.\<close>

definition roster :: "floating_window \<Rightarrow> world \<Rightarrow> pystr list" where
  "roster self w = store w ! names self"

definition queue :: "floating_window \<Rightarrow> world \<Rightarrow> pystr list" where
  "queue self w = store w ! shuffled_names self"

text \<open>The number of reshuffles \<open>get_next_name\<close> has reported.\<close>

definition reshuffles :: "world \<Rightarrow> nat" where
  "reshuffles w = length (filter (\<lambda>e. e = Reshuffled) (logged w))"

text \<open>The cursor invariant of the specification.\<close>

definition cursor_in_range :: "floating_window \<Rightarrow> world \<Rightarrow> bool" where
  "cursor_in_range self w \<longleftrightarrow>
     0 \<le> current_index self \<and> current_index self \<le> int (length (queue self w))"

text \<open>
  The invariant of the selector between calls: both references point to list objects,
  to different ones, the queue is a rearrangement of the roster, and the cursor is in
  range.
\<close>

definition selector_inv :: "floating_window \<Rightarrow> world \<Rightarrow> bool" where
  "selector_inv self w \<longleftrightarrow>
     names self < length (store w) \<and> shuffled_names self < length (store w)
     \<and> names self \<noteq> shuffled_names self
     \<and> mset (queue self w) = mset (roster self w)
     \<and> cursor_in_range self w"


section \<open>Concrete worlds and windows\<close>

text \<open>
  A first run: no roster file yet, every path can be created, an empty heap, and a
  generator whose \<open>k\<close>-th raw value is \<open>7 k + 3\<close>.
\<close>

definition example_world :: world where
  "example_world =
     \<lparr>files = Map.empty, creatable = (\<lambda>p. True), logged = [], store = [],
      tape = (\<lambda>k. 7 * k + 3), drawn = 0\<rparr>"

text \<open>The same on a read-only installation: no file can be created.\<close>

definition readonly_world :: world where
  "readonly_world = example_world\<lparr>creatable := (\<lambda>p. False)\<rparr>"

text \<open>A roster file holding \<open>"\n \n"\<close>: blank lines only.\<close>

definition blank_file_world :: world where
  "blank_file_world = example_world\<lparr>files := [''names.txt'' \<mapsto> Text [0x0A, 0x20, 0x0A]]\<rparr>"

text \<open>A roster file holding \<open>" a \r\n\n\tb\n"\<close>.\<close>

definition roster_file_world :: world where
  "roster_file_world =
     example_world\<lparr>files := [''names.txt'' \<mapsto>
        Text [0x20, 0x61, 0x20, 0x0D, 0x0A, 0x0A, 0x09, 0x62, 0x0A]]\<rparr>"

text \<open>Something at the path that cannot be read.\<close>

definition unreadable_world :: world where
  "unreadable_world = example_world\<lparr>files := [''names.txt'' \<mapsto> Unreadable]\<rparr>"

text \<open>
  A window whose roster is the list at address 0 and whose queue is the list at address 1,
  on a heap with the roster \<open>a, b, c\<close> and a used-up queue, and on a heap with an empty
  roster.
\<close>

definition fresh_window :: floating_window where
  "fresh_window = \<lparr>names = 0, shuffled_names = 1, current_index = 0\<rparr>"

definition used_up_window :: floating_window where
  "used_up_window = \<lparr>names = 0, shuffled_names = 1, current_index = 3\<rparr>"

definition three_names_world :: world where
  "three_names_world =
     example_world\<lparr>store := [[[0x61], [0x62], [0x63]], [[0x62], [0x63], [0x61]]]\<rparr>"

definition empty_roster_world :: world where
  "empty_roster_world = example_world\<lparr>store := [[], []]\<rparr>"

text \<open>A heap whose roster lists the name \<open>a\<close> twice, as a roster file with two equal lines gives.\<close>

definition twin_names_world :: world where
  "twin_names_world = example_world\<lparr>store := [[[0x61], [0x61]], [[0x61], [0x61]]]\<rparr>"


section \<open>The shuffle\<close>

lemma mod_Suc_below: "i < n \<Longrightarrow> m mod (i + 1) < (n::nat)"
proof -
  assume "i < n"
  moreover have "m mod (i + 1) < i + 1" by simp
  ultimately show ?thesis by arith
qed

text \<open>The loop draws one value per round and touches nothing else of the world.\<close>

lemma shuffle_loop_world: "snd (shuffle_loop k x w) = w\<lparr>drawn := drawn w + k\<rparr>"
  by (induction k arbitrary: x w) (simp_all add: randbelow_def)

lemma shuffle_loop_cong:
  "tape w = tape v \<Longrightarrow> drawn w = drawn v \<Longrightarrow>
     fst (shuffle_loop k x w) = fst (shuffle_loop k x v)"
  by (induction k arbitrary: x w v) (simp_all add: randbelow_def)

lemma shuffle_loop_length: "length (fst (shuffle_loop k x w)) = length x"
  by (induction k arbitrary: x w) (simp_all add: randbelow_def)

text \<open>Every round swaps two positions of the list, so the elements stay the same.\<close>

lemma shuffle_loop_mset:
  "k \<le> length x - 1 \<Longrightarrow> mset (fst (shuffle_loop k x w)) = mset x"
proof (induction k arbitrary: x w)
  case 0
  then show ?case by simp
next
  case (Suc k)
  let ?j = "tape w (drawn w) mod (Suc k + 1)"
  let ?x = "x[Suc k := x ! ?j, ?j := x ! Suc k]"
  from Suc.prems have i: "Suc k < length x" by simp
  have j: "?j < length x" using i by (rule mod_Suc_below)
  have "mset ?x = mset x" using j i by (rule mset_swap)
  moreover have "k \<le> length ?x - 1" using i by simp
  ultimately show ?case using Suc.IH [of ?x] by (simp add: randbelow_def)
qed

text \<open>The shuffle moves positions and never looks at the elements.\<close>

lemma shuffle_loop_map:
  "k \<le> length x - 1 \<Longrightarrow>
     fst (shuffle_loop k (map f x) w) = map f (fst (shuffle_loop k x w))"
proof (induction k arbitrary: x w)
  case 0
  then show ?case by simp
next
  case (Suc k)
  let ?j = "tape w (drawn w) mod (Suc k + 1)"
  from Suc.prems have i: "Suc k < length x" by simp
  have j: "?j < length x" using i by (rule mod_Suc_below)
  have "(map f x)[Suc k := map f x ! ?j, ?j := map f x ! Suc k]
          = map f (x[Suc k := x ! ?j, ?j := x ! Suc k])"
    using i j by (simp add: map_update)
  moreover have "k \<le> length (x[Suc k := x ! ?j, ?j := x ! Suc k]) - 1" using i by simp
  ultimately show ?case using Suc.IH [of "x[Suc k := x ! ?j, ?j := x ! Suc k]"]
    by (simp add: randbelow_def)
qed


section \<open>One call of the selector\<close>

lemma reset_shuffle_eq:
  "reset_shuffle self w =
     (self\<lparr>shuffled_names := length (store w), current_index := 0\<rparr>,
      w\<lparr>store := store w @ [fst (shuffle_loop (length (roster self w) - 1) (roster self w) w)],
        drawn := drawn w + (length (roster self w) - 1)\<rparr>)"
proof -
  let ?r = "store w ! names self"
  let ?w1 = "w\<lparr>store := store w @ [?r]\<rparr>"
  have l: "fst (shuffle_loop (length ?r - 1) ?r ?w1) = fst (shuffle_loop (length ?r - 1) ?r w)"
    by (rule shuffle_loop_cong) simp_all
  have "shuffle_loop (length ?r - 1) ?r ?w1
          = (fst (shuffle_loop (length ?r - 1) ?r w), ?w1\<lparr>drawn := drawn ?w1 + (length ?r - 1)\<rparr>)"
    using l shuffle_loop_world [of "length ?r - 1" ?r ?w1] by (simp add: prod_eq_iff)
  then show ?thesis
    by (simp add: reset_shuffle_def random_shuffle_def roster_def Let_def)
qed

lemma get_next_name_empty:
  "queue self w = [] \<Longrightarrow> get_next_name self w = (Inr empty_sentinel, self, w)"
  by (simp add: get_next_name_def queue_def)

lemma get_next_name_within:
  assumes "0 \<le> current_index self" "current_index self < int (length (queue self w))"
  shows "get_next_name self w =
           (Inr (queue self w ! nat (current_index self)),
            self\<lparr>current_index := current_index self + 1\<rparr>, w)"
proof -
  from assms have "store w ! shuffled_names self \<noteq> []" by (auto simp: queue_def)
  with assms show ?thesis
    by (simp add: get_next_name_def queue_def getitem_def Let_def)
qed

lemma get_next_name_exhausted:
  assumes "queue self w \<noteq> []" "int (length (queue self w)) \<le> current_index self"
    and "roster self w \<noteq> []"
  shows "get_next_name self w =
           (Inr (fst (shuffle_loop (length (roster self w) - 1) (roster self w) w) ! 0),
            self\<lparr>shuffled_names := length (store w), current_index := 1\<rparr>,
            w\<lparr>store := store w @ [fst (shuffle_loop (length (roster self w) - 1) (roster self w) w)],
              drawn := drawn w + (length (roster self w) - 1),
              logged := logged w @ [Reshuffled]\<rparr>)"
proof -
  let ?q = "fst (shuffle_loop (length (roster self w) - 1) (roster self w) w)"
  have "length ?q = length (roster self w)" by (rule shuffle_loop_length)
  with assms(3) have "0 < length ?q" by simp
  with assms(1,2) show ?thesis
    by (simp add: get_next_name_def queue_def reset_shuffle_eq getitem_def Let_def)
qed

lemma next_names_within:
  "0 \<le> current_index self \<Longrightarrow> nat (current_index self) + k \<le> length (queue self w) \<Longrightarrow>
     next_names k self w =
       (map Inr (take k (drop (nat (current_index self)) (queue self w))),
        self\<lparr>current_index := current_index self + int k\<rparr>, w)"
proof (induction k arbitrary: self)
  case 0
  then show ?case by simp
next
  case (Suc k)
  let ?i = "nat (current_index self)"
  let ?s = "self\<lparr>current_index := current_index self + 1\<rparr>"
  from Suc.prems have lt: "current_index self < int (length (queue self w))" by simp
  have q: "queue ?s w = queue self w" by (simp add: queue_def)
  have i: "nat (current_index ?s) = Suc ?i" using Suc.prems(1) by simp
  have "next_names k ?s w =
          (map Inr (take k (drop (nat (current_index ?s)) (queue ?s w))),
           ?s\<lparr>current_index := current_index ?s + int k\<rparr>, w)"
    using Suc.prems by (intro Suc.IH) (simp_all add: q)
  moreover have "take (Suc k) (drop ?i (queue self w))
                   = queue self w ! ?i # take k (drop (Suc ?i) (queue self w))"
  proof -
    have "?i < length (queue self w)" using Suc.prems(2) by simp
    then have "drop ?i (queue self w) = queue self w ! ?i # drop (Suc ?i) (queue self w)"
      by (rule Cons_nth_drop_Suc [symmetric])
    then show ?thesis by simp
  qed
  ultimately show ?case
    using get_next_name_within [OF Suc.prems(1) lt] i q
    by (simp add: add.assoc)
qed

text \<open>
  The queue a shuffle produces lists the positions of the shuffled list in some order,
  each position once.
\<close>

lemma shuffle_positions:
  "\<exists>p. distinct p \<and> set p = {..<length x}
       \<and> fst (shuffle_loop (length x - 1) x w) = map (\<lambda>i. x ! i) p"
proof -
  let ?n = "length x"
  let ?p = "fst (shuffle_loop (?n - 1) [0..<?n] w)"
  have m: "mset ?p = mset [0..<?n]" by (rule shuffle_loop_mset) simp
  have "distinct ?p" using mset_eq_imp_distinct_iff [OF m] by simp
  moreover have "set ?p = {..<?n}" using mset_eq_setD [OF m] by (simp add: atLeast0LessThan)
  moreover have "fst (shuffle_loop (?n - 1) (map (\<lambda>i. x ! i) [0..<?n]) w) = map (\<lambda>i. x ! i) ?p"
    by (rule shuffle_loop_map) simp
  then have "fst (shuffle_loop (?n - 1) x w) = map (\<lambda>i. x ! i) ?p" by (simp add: map_nth)
  ultimately show ?thesis by blast
qed



section \<open>The claims about the selector\<close>

text \<open>
  A roster that lists a name twice: the run of two calls after a reshuffle returns that
  name twice, so the run has a duplicate.
\<close>

theorem repeated_name_run_counterexample:
  "roster fresh_window twin_names_world = [[0x61], [0x61]]
   \<and> fst (next_names 2 (fst (reset_shuffle fresh_window twin_names_world))
            (snd (reset_shuffle fresh_window twin_names_world)))
       = [Inr [0x61], Inr [0x61]]
   \<and> \<not> distinct (fst (next_names 2 (fst (reset_shuffle fresh_window twin_names_world))
                       (snd (reset_shuffle fresh_window twin_names_world))))"
proof -
  have r: "roster fresh_window twin_names_world = [[0x61], [0x61]]"
    by (simp add: roster_def fresh_window_def twin_names_world_def)
  have run: "fst (next_names 2 (fst (reset_shuffle fresh_window twin_names_world))
                    (snd (reset_shuffle fresh_window twin_names_world)))
               = [Inr [0x61], Inr [0x61]]"
    by code_simp
  show ?thesis by (simp add: r run)
qed

text \<open>
  C1, for rosters of any names. Right after \<open>reset_shuffle()\<close>, a run of as many
  \<open>get_next_name()\<close> calls as the roster has names returns every roster entry exactly
  once: no call fails, the names returned are the roster's names with the roster's
  multiplicities, and the run reads the positions of the roster in some order without
  repeating a position. The values of the run are free of duplicates exactly when the
  names of the roster are pairwise different. The run only moves the cursor to the end of
  the queue; it does not reshuffle.
\<close>

theorem cycle_returns_each_name_once:
  assumes "reset_shuffle self w = (self1, w1)"
    and "next_names (length (roster self w)) self1 w1 = (rs, self2, w2)"
  shows "mset rs = image_mset Inr (mset (roster self w))
         \<and> (\<exists>p. distinct p \<and> set p = {..<length (roster self w)}
                \<and> rs = map (\<lambda>i. Inr (roster self w ! i)) p)
         \<and> (distinct rs \<longleftrightarrow> distinct (roster self w))
         \<and> self2 = self1\<lparr>current_index := int (length (roster self w))\<rparr> \<and> w2 = w1"
proof -
  let ?r = "roster self w"
  let ?q = "fst (shuffle_loop (length ?r - 1) ?r w)"
  from assms(1) have s1: "self1 = self\<lparr>shuffled_names := length (store w), current_index := 0\<rparr>"
    and w1: "store w1 = store w @ [?q]"
    by (auto simp: reset_shuffle_eq)
  have q: "queue self1 w1 = ?q" by (simp add: queue_def s1 w1)
  have len: "length ?q = length ?r" by (rule shuffle_loop_length)
  have i0: "current_index self1 = 0" by (simp add: s1)
  have "next_names (length ?r) self1 w1 =
          (map Inr (take (length ?r) (drop (nat (current_index self1)) (queue self1 w1))),
           self1\<lparr>current_index := current_index self1 + int (length ?r)\<rparr>, w1)"
    by (rule next_names_within) (simp_all add: i0 q shuffle_loop_length)
  with assms(2) have rs: "rs = map Inr ?q"
    and fin: "self2 = self1\<lparr>current_index := int (length ?r)\<rparr>" "w2 = w1"
    by (simp_all add: i0 q shuffle_loop_length)
  have m: "mset ?q = mset ?r" by (rule shuffle_loop_mset) simp
  have "distinct rs \<longleftrightarrow> distinct ?q" by (simp add: rs distinct_map)
  then have d: "distinct rs \<longleftrightarrow> distinct ?r" using mset_eq_imp_distinct_iff [OF m] by simp
  from m have "mset rs = image_mset Inr (mset ?r)" by (simp add: rs)
  moreover note d
  moreover obtain p where "distinct p" "set p = {..<length ?r}" "?q = map (\<lambda>i. ?r ! i) p"
    using shuffle_positions [of ?r w] by blast
  then have "\<exists>p. distinct p \<and> set p = {..<length ?r} \<and> rs = map (\<lambda>i. Inr (?r ! i)) p"
    by (auto simp: rs)
  ultimately show ?thesis using fin by simp
qed

theorem cycle_returns_each_name_once_witness:
  "fst (next_names 3 (fst (reset_shuffle fresh_window three_names_world))
          (snd (reset_shuffle fresh_window three_names_world)))
     = [Inr [0x62], Inr [0x63], Inr [0x61]]
   \<and> mset ([Inr [0x62], Inr [0x63], Inr [0x61]] :: (py_error + pystr) list)
       = image_mset Inr (mset (roster fresh_window three_names_world))"
proof -
  let ?s = "fst (reset_shuffle fresh_window three_names_world)"
  let ?w = "snd (reset_shuffle fresh_window three_names_world)"
  have n: "length (roster fresh_window three_names_world) = 3"
    by (simp add: roster_def fresh_window_def three_names_world_def)
  have run: "fst (next_names 3 ?s ?w) = [Inr [0x62], Inr [0x63], Inr [0x61]]"
    by code_simp
  have "mset (fst (next_names 3 ?s ?w))
          = image_mset Inr (mset (roster fresh_window three_names_world))"
    using cycle_returns_each_name_once
      [of fresh_window three_names_world ?s ?w "fst (next_names 3 ?s ?w)"
          "fst (snd (next_names 3 ?s ?w))" "snd (snd (next_names 3 ?s ?w))"]
    by (simp add: n)
  then show ?thesis by (simp only: run simp_thms)
qed

text \<open>What \<open>reset_shuffle\<close> leaves behind, and the full run that follows it.\<close>

lemma reset_shuffle_facts:
  assumes "reset_shuffle self w = (self1, w1)"
  shows "self1 = self\<lparr>shuffled_names := length (store w), current_index := 0\<rparr>"
    and "store w1 = store w @ [queue self1 w1]"
    and "queue self1 w1 = fst (shuffle_loop (length (roster self w) - 1) (roster self w) w)"
    and "logged w1 = logged w"
    and "length (queue self1 w1) = length (roster self w)"
    and "mset (queue self1 w1) = mset (roster self w)"
proof -
  let ?q = "fst (shuffle_loop (length (roster self w) - 1) (roster self w) w)"
  from assms show s1: "self1 = self\<lparr>shuffled_names := length (store w), current_index := 0\<rparr>"
    by (auto simp: reset_shuffle_eq)
  from assms have w1: "store w1 = store w @ [?q]" by (auto simp: reset_shuffle_eq)
  show q: "queue self1 w1 = ?q" by (simp add: queue_def s1 w1)
  show "store w1 = store w @ [queue self1 w1]" by (simp only: q w1)
  from assms show "logged w1 = logged w" by (auto simp: reset_shuffle_eq)
  show "length (queue self1 w1) = length (roster self w)" by (simp only: q shuffle_loop_length)
  have "mset ?q = mset (roster self w)" by (rule shuffle_loop_mset) simp
  then show "mset (queue self1 w1) = mset (roster self w)" by (simp only: q)
qed


lemma roster_after_reset:
  assumes "names self < length (store w)" and "reset_shuffle self w = (self1, w1)"
  shows "roster self1 w1 = roster self w"
  using assms(1) reset_shuffle_facts(1,2) [OF assms(2)]
  by (simp add: roster_def nth_append)




text \<open>With an empty queue every call takes the first branch and changes nothing.\<close>

lemma next_names_empty:
  "queue self w = [] \<Longrightarrow> next_names n self w = (replicate n (Inr empty_sentinel), self, w)"
  by (induction n) (simp_all add: get_next_name_empty)

lemma empty_roster_empty_queue:
  "selector_inv self w \<Longrightarrow> roster self w = [] \<Longrightarrow> queue self w = []"
  by (simp add: selector_inv_def)

text \<open>
  C3. A selector whose roster is empty returns the sentinel string at every call; no call
  raises.
\<close>

theorem empty_roster_always_sentinel:
  assumes "selector_inv self w" and "roster self w = []"
  shows "fst (next_names n self w) = replicate n (Inr empty_sentinel)"
  using next_names_empty [OF empty_roster_empty_queue [OF assms]] by simp

theorem empty_roster_always_sentinel_witness:
  "selector_inv fresh_window empty_roster_world \<and> roster fresh_window empty_roster_world = []
   \<and> fst (next_names 3 fresh_window empty_roster_world)
       = [Inr [0x540D, 0x5355, 0x4E3A, 0x7A7A], Inr [0x540D, 0x5355, 0x4E3A, 0x7A7A],
          Inr [0x540D, 0x5355, 0x4E3A, 0x7A7A]]"
proof -
  have h1: "selector_inv fresh_window empty_roster_world"
    by (simp add: selector_inv_def cursor_in_range_def queue_def roster_def fresh_window_def
        empty_roster_world_def)
  have h2: "roster fresh_window empty_roster_world = []"
    by (simp add: roster_def fresh_window_def empty_roster_world_def)
  from h1 h2 empty_roster_always_sentinel [OF h1 h2, of 3] show ?thesis
    by (simp add: empty_sentinel_def numeral_3_eq_3)
qed

text \<open>
  C10. With an empty roster a call returns the sentinel and leaves the window and the
  world as they were: the two references, the cursor, the lists on the heap, the log and
  the random source.
\<close>

theorem empty_roster_call_changes_nothing:
  assumes "selector_inv self w" and "roster self w = []"
  shows "get_next_name self w = (Inr empty_sentinel, self, w)"
  using empty_roster_empty_queue [OF assms] by (rule get_next_name_empty)

theorem empty_roster_call_changes_nothing_witness:
  "selector_inv fresh_window empty_roster_world \<and> roster fresh_window empty_roster_world = []
   \<and> get_next_name fresh_window empty_roster_world
       = (Inr [0x540D, 0x5355, 0x4E3A, 0x7A7A], fresh_window, empty_roster_world)"
proof -
  have h1: "selector_inv fresh_window empty_roster_world"
    by (simp add: selector_inv_def cursor_in_range_def queue_def roster_def fresh_window_def
        empty_roster_world_def)
  have h2: "roster fresh_window empty_roster_world = []"
    by (simp add: roster_def fresh_window_def empty_roster_world_def)
  from h1 h2 empty_roster_call_changes_nothing [OF h1 h2] show ?thesis
    by (simp add: empty_sentinel_def)
qed

text \<open>
  The three ways a call can end: nothing but the cursor changes, or the call has
  reshuffled first; and what no call touches.
\<close>

lemma get_next_name_cases:
  assumes "get_next_name self w = (r, self2, w2)"
  shows "(\<exists>i. self2 = self\<lparr>current_index := i\<rparr> \<and> w2 = w)
       \<or> (\<exists>self1 w1 i. reset_shuffle self w = (self1, w1)
              \<and> self2 = self1\<lparr>current_index := i\<rparr>
              \<and> w2 = w1\<lparr>logged := logged w1 @ [Reshuffled]\<rparr>)"
proof (cases "store w ! shuffled_names self = []")
  case True
  with assms have "self2 = self\<lparr>current_index := current_index self\<rparr> \<and> w2 = w"
    by (simp add: get_next_name_def)
  then show ?thesis by blast
next
  case False
  show ?thesis
  proof (cases "int (length (store w ! shuffled_names self)) \<le> current_index self")
    case True
    obtain self1 w1 where rs: "reset_shuffle self w = (self1, w1)"
      by (cases "reset_shuffle self w")
    let ?v = "w1\<lparr>logged := logged w1 @ [Reshuffled]\<rparr>"
    from assms False True rs
    have g: "(case getitem (store ?v ! shuffled_names self1) (current_index self1) of
                Inl e \<Rightarrow> (Inl e, self1, ?v)
              | Inr name \<Rightarrow> (Inr name, self1\<lparr>current_index := current_index self1 + 1\<rparr>, ?v))
             = (r, self2, w2)"
      by (simp add: get_next_name_def)
    have "\<exists>i. self2 = self1\<lparr>current_index := i\<rparr> \<and> w2 = ?v"
    proof (cases "getitem (store ?v ! shuffled_names self1) (current_index self1)")
      case (Inl e)
      with g have "self2 = self1\<lparr>current_index := current_index self1\<rparr> \<and> w2 = ?v" by simp
      then show ?thesis by blast
    next
      case (Inr name)
      with g have "self2 = self1\<lparr>current_index := current_index self1 + 1\<rparr> \<and> w2 = ?v" by simp
      then show ?thesis by blast
    qed
    with rs show ?thesis by blast
  next
    case nex: False
    from assms False nex
    have g: "(case getitem (store w ! shuffled_names self) (current_index self) of
                Inl e \<Rightarrow> (Inl e, self, w)
              | Inr name \<Rightarrow> (Inr name, self\<lparr>current_index := current_index self + 1\<rparr>, w))
             = (r, self2, w2)"
      by (simp add: get_next_name_def)
    have "\<exists>i. self2 = self\<lparr>current_index := i\<rparr> \<and> w2 = w"
    proof (cases "getitem (store w ! shuffled_names self) (current_index self)")
      case (Inl e)
      with g have "self2 = self\<lparr>current_index := current_index self\<rparr> \<and> w2 = w" by simp
      then show ?thesis by blast
    next
      case (Inr name)
      with g have "self2 = self\<lparr>current_index := current_index self + 1\<rparr> \<and> w2 = w" by simp
      then show ?thesis by blast
    qed
    then show ?thesis by blast
  qed
qed

lemma get_next_name_frame:
  assumes "names self < length (store w)" and "get_next_name self w = (r, self2, w2)"
  shows "names self2 = names self" and "roster self2 w2 = roster self w"
    and "take (length (store w)) (store w2) = store w"
proof -
  from get_next_name_cases [OF assms(2)]
  have "names self2 = names self \<and> roster self2 w2 = roster self w
          \<and> take (length (store w)) (store w2) = store w"
  proof (elim disjE exE conjE)
    fix i assume "self2 = self\<lparr>current_index := i\<rparr>" "w2 = w"
    then show ?thesis by (simp add: roster_def)
  next
    fix self1 w1 i
    assume rs: "reset_shuffle self w = (self1, w1)"
      and s2: "self2 = self1\<lparr>current_index := i\<rparr>"
      and w2: "w2 = w1\<lparr>logged := logged w1 @ [Reshuffled]\<rparr>"
    note f = reset_shuffle_facts [OF rs]
    have "roster self1 w1 = roster self w" by (rule roster_after_reset [OF assms(1) rs])
    then have "roster self2 w2 = roster self w" by (simp add: roster_def s2 w2)
    moreover have "names self2 = names self" by (simp add: s2 f(1))
    moreover have "take (length (store w)) (store w2) = store w" by (simp add: w2 f(2))
    ultimately show ?thesis by simp
  qed
  then show "names self2 = names self" and "roster self2 w2 = roster self w"
    and "take (length (store w)) (store w2) = store w" by simp_all
qed

text \<open>
  C9. \<open>reset_shuffle()\<close> makes the queue a rearrangement of the roster (the same names
  with the same multiplicities) and sets the cursor to 0; it returns nothing but the new
  state. Neither \<open>reset_shuffle()\<close> nor \<open>get_next_name()\<close> changes which list is the
  roster, the contents of that list, or any list that existed before the call: the
  shuffle works on a copy.
\<close>

theorem roster_is_never_modified:
  assumes "names self < length (store w)"
    and "reset_shuffle self w = (self1, w1)"
    and "get_next_name self w = (r, self2, w2)"
  shows "mset (queue self1 w1) = mset (roster self w) \<and> current_index self1 = 0
         \<and> names self1 = names self \<and> roster self1 w1 = roster self w
         \<and> take (length (store w)) (store w1) = store w
         \<and> names self2 = names self \<and> roster self2 w2 = roster self w
         \<and> take (length (store w)) (store w2) = store w"
proof -
  note f = reset_shuffle_facts [OF assms(2)]
  have "current_index self1 = 0" and "names self1 = names self" by (simp_all add: f(1))
  moreover have "take (length (store w)) (store w1) = store w" by (simp add: f(2))
  ultimately show ?thesis
    using f(6) roster_after_reset [OF assms(1,2)] get_next_name_frame [OF assms(1,3)]
    by simp
qed


theorem roster_is_never_modified_witness:
  "names fresh_window < length (store three_names_world)
   \<and> queue (fst (reset_shuffle fresh_window three_names_world))
         (snd (reset_shuffle fresh_window three_names_world)) = [[0x62], [0x63], [0x61]]
   \<and> roster (fst (reset_shuffle fresh_window three_names_world))
         (snd (reset_shuffle fresh_window three_names_world)) = [[0x61], [0x62], [0x63]]
   \<and> roster (fst (snd (get_next_name fresh_window three_names_world)))
         (snd (snd (get_next_name fresh_window three_names_world))) = [[0x61], [0x62], [0x63]]"
proof -
  let ?a = "reset_shuffle fresh_window three_names_world"
  let ?b = "get_next_name fresh_window three_names_world"
  have h1: "names fresh_window < length (store three_names_world)"
    by (simp add: fresh_window_def three_names_world_def)
  have h2: "?a = (fst ?a, snd ?a)" by simp
  have h3: "?b = (fst ?b, fst (snd ?b), snd (snd ?b))" by simp
  have r: "roster fresh_window three_names_world = [[0x61], [0x62], [0x63]]"
    by (simp add: roster_def fresh_window_def three_names_world_def)
  have q: "queue (fst ?a) (snd ?a) = [[0x62], [0x63], [0x61]]" by code_simp
  note t = roster_is_never_modified [OF h1 h2 h3]
  have "roster (fst ?a) (snd ?a) = roster fresh_window three_names_world"
    and "roster (fst (snd ?b)) (snd (snd ?b)) = roster fresh_window three_names_world"
    using t by blast+
  with h1 q show ?thesis by (simp only: r simp_thms)
qed

section \<open>The invariant\<close>

lemma selector_inv_logged: "selector_inv self (w\<lparr>logged := l\<rparr>) = selector_inv self w"
  by (simp add: selector_inv_def cursor_in_range_def queue_def roster_def)

lemma cursor_after_reset:
  assumes "reset_shuffle self w = (self1, w1)"
  shows "cursor_in_range self1 w1"
  using reset_shuffle_facts(1) [OF assms] by (simp add: cursor_in_range_def)

lemma selector_inv_reset:
  assumes "names self < length (store w)" and "reset_shuffle self w = (self1, w1)"
  shows "selector_inv self1 w1"
proof -
  note f = reset_shuffle_facts [OF assms(2)]
  have "names self1 = names self" and "shuffled_names self1 = length (store w)"
    by (simp_all add: f(1))
  moreover have "length (store w1) = Suc (length (store w))" by (simp add: f(2))
  moreover have "mset (queue self1 w1) = mset (roster self1 w1)"
    by (simp only: f(6) roster_after_reset [OF assms])
  ultimately show ?thesis
    using assms(1) cursor_after_reset [OF assms(2)] by (simp add: selector_inv_def)
qed

lemma get_next_name_exhausted_any:
  assumes "queue self w \<noteq> []" and "int (length (queue self w)) \<le> current_index self"
    and "reset_shuffle self w = (self1, w1)"
  shows "get_next_name self w =
           (case getitem (queue self1 w1) 0 of
              Inl e \<Rightarrow> (Inl e, self1, w1\<lparr>logged := logged w1 @ [Reshuffled]\<rparr>)
            | Inr name \<Rightarrow> (Inr name, self1\<lparr>current_index := 1\<rparr>,
                           w1\<lparr>logged := logged w1 @ [Reshuffled]\<rparr>))"
proof -
  have "current_index self1 = 0" using reset_shuffle_facts(1) [OF assms(3)] by simp
  with assms show ?thesis by (simp add: get_next_name_def queue_def split: sum.splits)
qed

lemma cursor_next:
  assumes "cursor_in_range self w" and "get_next_name self w = (r, self2, w2)"
  shows "cursor_in_range self2 w2"
proof (cases "queue self w = []")
  case True
  with assms show ?thesis by (simp add: get_next_name_empty)
next
  case False
  show ?thesis
  proof (cases "current_index self < int (length (queue self w))")
    case True
    from assms(1) have pos: "0 \<le> current_index self" by (simp add: cursor_in_range_def)
    from get_next_name_within [OF pos True] assms(2) True pos show ?thesis
      by (auto simp: cursor_in_range_def queue_def)
  next
    case full: False
    obtain self1 w1 where rs: "reset_shuffle self w = (self1, w1)"
      by (cases "reset_shuffle self w")
    have i0: "current_index self1 = 0" using reset_shuffle_facts(1) [OF rs] by simp
    from full have "int (length (queue self w)) \<le> current_index self" by simp
    note g = get_next_name_exhausted_any [OF False this rs]
    show ?thesis
    proof (cases "queue self1 w1 = []")
      case True
      with g assms(2) i0 show ?thesis
        by (auto simp: getitem_def cursor_in_range_def queue_def)
    next
      case False
      then have "Suc 0 \<le> length (store w1 ! shuffled_names self1)"
        by (cases "store w1 ! shuffled_names self1") (simp_all add: queue_def)
      with g assms(2) False show ?thesis
        by (auto simp: getitem_def cursor_in_range_def queue_def)
    qed
  qed
qed

lemma selector_inv_next:
  assumes "selector_inv self w" and "get_next_name self w = (r, self2, w2)"
  shows "selector_inv self2 w2"
proof -
  from assms(1) have c: "cursor_in_range self w" by (simp add: selector_inv_def)
  note c2 = cursor_next [OF c assms(2)]
  from assms(1) have nv: "names self < length (store w)" by (simp add: selector_inv_def)
  from get_next_name_cases [OF assms(2)] show ?thesis
  proof (elim disjE exE conjE)
    fix i assume "self2 = self\<lparr>current_index := i\<rparr>" "w2 = w"
    with assms(1) c2 show ?thesis
      by (simp add: selector_inv_def queue_def roster_def cursor_in_range_def)
  next
    fix self1 w1 i
    assume rs: "reset_shuffle self w = (self1, w1)"
      and s2: "self2 = self1\<lparr>current_index := i\<rparr>"
      and w2: "w2 = w1\<lparr>logged := logged w1 @ [Reshuffled]\<rparr>"
    have "selector_inv self1 w1" by (rule selector_inv_reset [OF nv rs])
    with c2 show ?thesis
      by (simp add: s2 w2 selector_inv_def queue_def roster_def cursor_in_range_def)
  qed
qed

lemma read_names_store: "store (snd (read_names_from_file file_path w)) = store w"
  by (simp add: read_names_from_file_def split: option.splits fs_entry.splits)

lemma selector_inv_init:
  assumes "floating_window_init file_path u = (Inr (), self0, u0)"
  shows "selector_inv self0 u0"
proof -
  let ?u1 = "u\<lparr>store := store u @ [[], []]\<rparr>"
  let ?s = "\<lparr>names = length (store u), shuffled_names = length (store u) + 1,
             current_index = 0\<rparr>"
  from assms have l: "load_names file_path ?s ?u1 = (Inr (), self0, u0)"
    by (simp add: floating_window_init_def Let_def)
  obtain res v where rd: "read_names_from_file file_path ?u1 = (res, v)"
    by (cases "read_names_from_file file_path ?u1")
  from l rd obtain ns where res: "res = Inr ns"
    by (cases res) (simp_all add: load_names_def)
  let ?s1 = "?s\<lparr>names := length (store v)\<rparr>"
  let ?v2 = "v\<lparr>store := store v @ [ns]\<rparr>"
  obtain s3 v3 where rs: "reset_shuffle ?s1 ?v2 = (s3, v3)" by (cases "reset_shuffle ?s1 ?v2")
  from l rd res rs have e: "self0 = s3" "u0 = v3\<lparr>logged := logged v3 @ [Loaded (length ns)]\<rparr>"
    by (simp_all add: load_names_def Let_def)
  have "names ?s1 < length (store ?v2)" by simp
  then have "selector_inv s3 v3" using rs by (rule selector_inv_reset)
  then show ?thesis by (simp add: e selector_inv_logged)
qed

text \<open>The constructor succeeds exactly when the loader returns a roster.\<close>

lemma floating_window_init_result:
  "fst (floating_window_init file_path u) =
     (case fst (read_names_from_file file_path (u\<lparr>store := store u @ [[], []]\<rparr>)) of
        Inl e \<Rightarrow> Inl e | Inr ns \<Rightarrow> Inr ())"
  by (simp add: floating_window_init_def load_names_def Let_def split: prod.splits sum.splits)

text \<open>
  With an empty roster the cursor equals the length of the queue, both being 0, and the
  next call neither builds a new queue nor reports a reshuffle: it returns the sentinel
  and leaves everything as it was.
\<close>

theorem cursor_at_end_of_empty_queue_counterexample:
  "selector_inv fresh_window empty_roster_world
   \<and> current_index fresh_window = int (length (queue fresh_window empty_roster_world))
   \<and> get_next_name fresh_window empty_roster_world
       = (Inr empty_sentinel, fresh_window, empty_roster_world)
   \<and> shuffled_names (fst (snd (get_next_name fresh_window empty_roster_world)))
       = shuffled_names fresh_window
   \<and> reshuffles (snd (snd (get_next_name fresh_window empty_roster_world)))
       \<noteq> reshuffles empty_roster_world + 1"
proof -
  have q: "queue fresh_window empty_roster_world = []"
    by (simp add: queue_def fresh_window_def empty_roster_world_def)
  have i: "selector_inv fresh_window empty_roster_world"
    by (simp add: selector_inv_def cursor_in_range_def queue_def roster_def fresh_window_def
        empty_roster_world_def)
  have c: "current_index fresh_window = 0" by (simp add: fresh_window_def)
  note g = get_next_name_empty [OF q]
  show ?thesis by (simp add: i c q g)
qed

text \<open>
  C8, for a queue that is not empty. The cursor invariant \<open>0 \<le> current_index \<le> len(shuffled_names)\<close> holds
  after the constructor has run \<open>load_names\<close>, and is kept by every \<open>reset_shuffle()\<close>
  and every \<open>get_next_name()\<close>; so is the stronger invariant \<open>selector_inv\<close>. When the
  cursor equals the length of a queue that is not empty, the next \<open>get_next_name()\<close>
  builds a new queue, a rearrangement of the roster in a new list object, reports one
  reshuffle, returns the first name of the new queue and leaves the cursor at 1.
\<close>

theorem cursor_invariant:
  assumes "floating_window_init file_path u = (Inr (), self0, u0)"
    and "cursor_in_range self w"
    and "reset_shuffle self w = (self1, w1)"
    and "get_next_name self w = (r, self2, w2)"
  shows "selector_inv self0 u0 \<and> cursor_in_range self0 u0
         \<and> cursor_in_range self1 w1 \<and> cursor_in_range self2 w2
         \<and> (selector_inv self w \<longrightarrow> selector_inv self1 w1 \<and> selector_inv self2 w2)
         \<and> (selector_inv self w \<and> current_index self = int (length (queue self w))
              \<and> queue self w \<noteq> [] \<longrightarrow>
                shuffled_names self2 = length (store w)
                \<and> mset (queue self2 w2) = mset (roster self w)
                \<and> r = Inr (queue self2 w2 ! 0) \<and> current_index self2 = 1
                \<and> reshuffles w2 = reshuffles w + 1)"
proof -
  have a: "selector_inv self0 u0" by (rule selector_inv_init [OF assms(1)])
  then have b: "cursor_in_range self0 u0" by (simp add: selector_inv_def)
  have c: "cursor_in_range self1 w1" by (rule cursor_after_reset [OF assms(3)])
  have d: "cursor_in_range self2 w2" by (rule cursor_next [OF assms(2,4)])
  have e: "selector_inv self1 w1 \<and> selector_inv self2 w2" if inv: "selector_inv self w"
  proof -
    from inv have "names self < length (store w)" by (simp add: selector_inv_def)
    then have "selector_inv self1 w1" using assms(3) by (rule selector_inv_reset)
    moreover have "selector_inv self2 w2" by (rule selector_inv_next [OF inv assms(4)])
    ultimately show ?thesis by simp
  qed
  have f: "shuffled_names self2 = length (store w)
           \<and> mset (queue self2 w2) = mset (roster self w)
           \<and> r = Inr (queue self2 w2 ! 0) \<and> current_index self2 = 1
           \<and> reshuffles w2 = reshuffles w + 1"
    if inv: "selector_inv self w" and full: "current_index self = int (length (queue self w))"
      and ne: "queue self w \<noteq> []"
  proof -
    let ?q = "fst (shuffle_loop (length (roster self w) - 1) (roster self w) w)"
    from inv have "mset (queue self w) = mset (roster self w)" by (simp add: selector_inv_def)
    with ne have rne: "roster self w \<noteq> []" by auto
    from full have "int (length (queue self w)) \<le> current_index self" by simp
    from get_next_name_exhausted [OF ne this rne] assms(4)
    have r: "r = Inr (?q ! 0)"
      and s2: "self2 = self\<lparr>shuffled_names := length (store w), current_index := 1\<rparr>"
      and w2: "w2 = w\<lparr>store := store w @ [?q],
                      drawn := drawn w + (length (roster self w) - 1),
                      logged := logged w @ [Reshuffled]\<rparr>"
      by simp_all
    have q2: "queue self2 w2 = ?q" by (simp add: queue_def s2 w2)
    have m: "mset ?q = mset (roster self w)" by (rule shuffle_loop_mset) simp
    have "shuffled_names self2 = length (store w)" and "current_index self2 = 1"
      by (simp_all add: s2)
    moreover have "reshuffles w2 = reshuffles w + 1" by (simp add: w2 reshuffles_def)
    moreover have "r = Inr (queue self2 w2 ! 0)" by (simp only: r q2)
    moreover have "mset (queue self2 w2) = mset (roster self w)" by (simp only: q2 m)
    ultimately show ?thesis by blast
  qed
  from a b c d e f show ?thesis by blast
qed

theorem cursor_invariant_witness:
  "fst (floating_window_init ''names.txt'' example_world) = Inr ()
   \<and> selector_inv (fst (snd (floating_window_init ''names.txt'' example_world)))
        (snd (snd (floating_window_init ''names.txt'' example_world)))
   \<and> selector_inv used_up_window three_names_world
   \<and> current_index used_up_window = int (length (queue used_up_window three_names_world))
   \<and> queue used_up_window three_names_world \<noteq> []
   \<and> fst (get_next_name used_up_window three_names_world) = Inr [0x62]
   \<and> current_index (fst (snd (get_next_name used_up_window three_names_world))) = 1
   \<and> reshuffles (snd (snd (get_next_name used_up_window three_names_world)))
       = reshuffles three_names_world + 1"
proof -
  let ?i = "floating_window_init ''names.txt'' example_world"
  let ?a = "reset_shuffle used_up_window three_names_world"
  let ?b = "get_next_name used_up_window three_names_world"
  have i1: "fst ?i = Inr ()"
    by (simp add: floating_window_init_result read_names_from_file_def example_world_def)
  then have h1: "?i = (Inr (), fst (snd ?i), snd (snd ?i))" by (simp add: prod_eq_iff)
  have q: "queue used_up_window three_names_world = [[0x62], [0x63], [0x61]]"
    by (simp add: queue_def used_up_window_def three_names_world_def)
  have inv: "selector_inv used_up_window three_names_world"
    by (simp add: selector_inv_def cursor_in_range_def queue_def roster_def used_up_window_def
        three_names_world_def)
  then have h2: "cursor_in_range used_up_window three_names_world"
    by (simp add: selector_inv_def)
  have h3: "?a = (fst ?a, snd ?a)" by simp
  have h4: "?b = (fst ?b, fst (snd ?b), snd (snd ?b))" by simp
  have "current_index used_up_window = 3" by (simp add: used_up_window_def)
  then have full:
    "current_index used_up_window = int (length (queue used_up_window three_names_world))"
    by (simp add: q)
  have ne: "queue used_up_window three_names_world \<noteq> []" by (simp add: q)
  have v: "fst ?b = Inr [0x62]" by code_simp
  note t = cursor_invariant [OF h1 h2 h3 h4]
  from t have "selector_inv (fst (snd ?i)) (snd (snd ?i))" by blast
  moreover from t inv full ne have "current_index (fst (snd ?b)) = 1"
    and "reshuffles (snd (snd ?b)) = reshuffles three_names_world + 1" by blast+
  ultimately show ?thesis using i1 inv full ne v by (simp only: simp_thms)
qed

section \<open>Lines and stripping\<close>

text \<open>
  What \<open>strip\<close> removes is white space at both ends and nothing else, what it returns
  neither starts nor ends with white space, and the lines of a text hold exactly its
  characters other than line boundaries.
\<close>

lemma linebreak_is_space: "is_linebreak c \<Longrightarrow> is_space c"
  by (auto simp: is_linebreak_def is_space_def)

lemma dropWhile_decomp: "\<exists>a. s = a @ dropWhile P s \<and> (\<forall>x\<in>set a. P x)"
proof -
  have "s = takeWhile P s @ dropWhile P s" by simp
  moreover have "\<forall>x\<in>set (takeWhile P s). P x" by (auto dest: set_takeWhileD)
  ultimately show ?thesis by blast
qed

lemma strip_decomp:
  "\<exists>a b. s = a @ strip s @ b \<and> (\<forall>x\<in>set a. is_space x) \<and> (\<forall>x\<in>set b. is_space x)"
proof -
  let ?t = "dropWhile is_space s"
  obtain a where a: "s = a @ ?t" "\<forall>x\<in>set a. is_space x"
    using dropWhile_decomp [of s is_space] by blast
  obtain c where c: "rev ?t = c @ dropWhile is_space (rev ?t)" "\<forall>x\<in>set c. is_space x"
    using dropWhile_decomp [of "rev ?t" is_space] by blast
  from c(1) have "rev (rev ?t) = rev (c @ dropWhile is_space (rev ?t))" by (rule arg_cong)
  then have "?t = strip s @ rev c" by (simp add: strip_def)
  with a have "s = a @ strip s @ rev c" by simp
  moreover have "\<forall>x\<in>set (rev c). is_space x" using c(2) by simp
  ultimately show ?thesis using a(2) by blast
qed

lemma strip_trimmed:
  assumes "strip s \<noteq> []"
  shows "\<not> is_space (hd (strip s))" and "\<not> is_space (last (strip s))"
proof -
  let ?t = "dropWhile is_space s"
  let ?u = "dropWhile is_space (rev ?t)"
  from assms have u: "?u \<noteq> []" by (simp add: strip_def)
  then have "\<not> is_space (hd ?u)" by (rule hd_dropWhile)
  then show "\<not> is_space (last (strip s))" using u by (simp add: strip_def last_rev)
  have t: "?t \<noteq> []"
  proof
    assume "?t = []"
    then have "?u = []" by (simp only: rev.simps dropWhile.simps)
    with u show False by contradiction
  qed
  then have h: "\<not> is_space (hd ?t)" by (rule hd_dropWhile)
  have "\<exists>c. rev ?t = c @ ?u" using dropWhile_decomp [of "rev ?t" is_space] by blast
  then obtain c where "rev ?t = c @ ?u" ..
  then have "rev (rev ?t) = rev (c @ ?u)" by (rule arg_cong)
  then have "?t = strip s @ rev c" by (simp add: strip_def)
  then have "hd ?t = hd (strip s)" using assms by (metis hd_append2)
  with h show "\<not> is_space (hd (strip s))" by simp
qed

lemma strip_empty_iff: "strip s = [] \<longleftrightarrow> (\<forall>x\<in>set s. is_space x)"
proof
  assume "strip s = []"
  then have "\<forall>x\<in>set (rev (dropWhile is_space s)). is_space x"
    by (simp add: strip_def dropWhile_eq_Nil_conv)
  then have all: "\<forall>x\<in>set (dropWhile is_space s). is_space x" by simp
  have "dropWhile is_space s = []"
  proof (rule ccontr)
    assume ne: "dropWhile is_space s \<noteq> []"
    then have "\<not> is_space (hd (dropWhile is_space s))" by (rule hd_dropWhile)
    moreover have "hd (dropWhile is_space s) \<in> set (dropWhile is_space s)" using ne by simp
    ultimately show False using all by blast
  qed
  then show "\<forall>x\<in>set s. is_space x" by (simp add: dropWhile_eq_Nil_conv)
next
  assume "\<forall>x\<in>set s. is_space x"
  then have d: "dropWhile is_space s = []" by (simp add: dropWhile_eq_Nil_conv)
  have "strip s = rev (dropWhile is_space (rev []))" by (simp only: strip_def d)
  then show "strip s = []" by simp
qed

lemma splitlines_from_chars:
  "(\<Union>l\<in>set (splitlines_from cur s). set l) = set cur \<union> {x \<in> set s. \<not> is_linebreak x}"
proof (induction cur s rule: splitlines_from.induct)
  case (1 cur)
  show ?case by simp
next
  case (2 cur c cs)
  show ?case
  proof (cases "c = 0x0D")
    case True
    then have lb: "is_linebreak c" by (simp add: is_linebreak_def)
    show ?thesis
    proof (cases cs)
      case Nil
      with True lb show ?thesis by auto
    next
      case (Cons d ds)
      show ?thesis
      proof (cases "d = 0x0A")
        case dt: True
        then have "is_linebreak d" by (simp add: is_linebreak_def)
        with True lb Cons dt "2.IH"(1) [OF True Cons dt] show ?thesis by auto
      next
        case df: False
        with True lb Cons "2.IH"(2) [OF True Cons df] show ?thesis by auto
      qed
    qed
  next
    case False
    show ?thesis
    proof (cases "is_linebreak c")
      case True
      with False "2.IH"(3) [OF False True] show ?thesis by auto
    next
      case nl: False
      with False "2.IH"(4) [OF False nl] show ?thesis by auto
    qed
  qed
qed

lemma splitlines_chars: "(\<Union>l\<in>set (splitlines s). set l) = {x \<in> set s. \<not> is_linebreak x}"
  by (simp add: splitlines_def splitlines_from_chars)

lemma kept_names_eq:
  "[strip name. name \<leftarrow> ls, strip name \<noteq> []] = filter (\<lambda>n. n \<noteq> []) (map strip ls)"
  by (induction ls) simp_all

lemma no_names_iff_blank:
  "[strip name. name \<leftarrow> splitlines content, strip name \<noteq> []] = []
     \<longleftrightarrow> (\<forall>x\<in>set content. is_space x)"
proof -
  have "[strip name. name \<leftarrow> splitlines content, strip name \<noteq> []] = []
          \<longleftrightarrow> (\<forall>l\<in>set (splitlines content). strip l = [])"
    by (simp add: kept_names_eq filter_empty_conv)
  also have "\<dots> \<longleftrightarrow> (\<forall>x\<in>(\<Union>l\<in>set (splitlines content). set l). is_space x)"
    by (simp add: strip_empty_iff)
  also have "\<dots> \<longleftrightarrow> (\<forall>x\<in>set content. is_space x)"
    unfolding splitlines_chars using linebreak_is_space by auto
  finally show ?thesis .
qed


lemma splitlines_no_linebreak:
  "line \<in> set (splitlines content) \<Longrightarrow> x \<in> set line \<Longrightarrow> \<not> is_linebreak x"
  using splitlines_chars [of content] by blast

lemma default_file_reads_back:
  "[strip name. name \<leftarrow> splitlines (join [0x0A] default_names), strip name \<noteq> []]
     = default_names"
  by (simp add: default_names_def splitlines_def is_linebreak_def strip_def is_space_def)

section \<open>The claims about the loader\<close>

text \<open>
  Where the path is missing and no file can be created there, nothing is written and no
  list is returned.
\<close>

theorem uncreatable_path_gets_no_defaults_counterexample:
  "files readonly_world ''plugin/names.txt'' = None
   \<and> fst (read_names_from_file ''plugin/names.txt'' readonly_world) \<noteq> Inr default_names
   \<and> files (snd (read_names_from_file ''plugin/names.txt'' readonly_world))
         ''plugin/names.txt'' = None"
  by (simp add: read_names_from_file_def readonly_world_def example_world_def)

text \<open>
  C4, for a path at which a file can be created. Called with a path at which nothing
  exists and at which a file can be created, \<open>read_names_from_file\<close> writes the six default names to that path, joined by newlines,
  and returns exactly these six names. A second call then reads the file back and returns
  the same six names without writing again.
\<close>

theorem missing_file_is_created_with_defaults:
  assumes "files w file_path = None" and "creatable w file_path"
  shows "read_names_from_file file_path w =
           (Inr default_names,
            w\<lparr>files := (files w)(file_path \<mapsto> Text (join [0x0A] default_names))\<rparr>)
         \<and> length default_names = 6
         \<and> read_names_from_file file_path (snd (read_names_from_file file_path w)) =
             (Inr default_names, snd (read_names_from_file file_path w))"
proof -
  let ?w = "w\<lparr>files := (files w)(file_path \<mapsto> Text (join [0x0A] default_names))\<rparr>"
  from assms have a: "read_names_from_file file_path w = (Inr default_names, ?w)"
    by (simp add: read_names_from_file_def)
  have b: "length default_names = 6" by (simp add: default_names_def)
  have "files ?w file_path = Some (Text (join [0x0A] default_names))" by simp
  then have "read_names_from_file file_path ?w = (Inr default_names, ?w)"
    by (simp only: read_names_from_file_def option.case fs_entry.case default_file_reads_back)
  with a b show ?thesis by (simp only: snd_conv simp_thms)
qed

theorem missing_file_is_created_with_defaults_witness:
  "files example_world ''names.txt'' = None \<and> creatable example_world ''names.txt''
   \<and> fst (read_names_from_file ''names.txt'' example_world)
       = Inr [[0x5C0F, 0x660E], [0x674E, 0x534E], [0x5F20, 0x4E09],
              [0x674E, 0x56DB], [0x738B, 0x4E94], [0x8D75, 0x516D]]
   \<and> files (snd (read_names_from_file ''names.txt'' example_world)) ''names.txt''
       = Some (Text [0x5C0F, 0x660E, 0x0A, 0x674E, 0x534E, 0x0A, 0x5F20, 0x4E09, 0x0A,
                     0x674E, 0x56DB, 0x0A, 0x738B, 0x4E94, 0x0A, 0x8D75, 0x516D])"
proof -
  have h1: "files example_world ''names.txt'' = None" by (simp add: example_world_def)
  have h2: "creatable example_world ''names.txt''" by (simp add: example_world_def)
  from h1 h2 missing_file_is_created_with_defaults [OF h1 h2, THEN conjunct1]
  show ?thesis by (simp add: default_names_def)
qed

text \<open>
  C5 at a roster file that is missing and cannot be written. A failure to write the
  roster file is to be logged and answered with the built-in list, as a failure to read
  it is. On a read-only installation the code does neither: the \<open>open\<close> for writing is
  not inside the \<open>try\<close>, so the error leaves \<open>read_names_from_file\<close>, no list is
  returned and nothing is logged.
\<close>

theorem unwritable_default_file_raises:
  "files readonly_world ''names.txt'' = None
   \<and> read_names_from_file ''names.txt'' readonly_world = (Inl OSError, readonly_world)
   \<and> logged readonly_world = []"
  by (simp add: read_names_from_file_def readonly_world_def example_world_def)

text \<open>
  Read failures never leave \<open>read_names_from_file\<close>: whenever something exists at the
  path the function returns a list, and when it cannot be read the function
  logs one error and returns the built-in list of four names.
\<close>

theorem read_failure_returns_fallback:
  assumes "files w file_path = Some entry"
  shows "(\<exists>ns. fst (read_names_from_file file_path w) = Inr ns)
         \<and> (entry = Unreadable \<longrightarrow>
               read_names_from_file file_path w =
                 (Inr fallback_names, w\<lparr>logged := logged w @ [ReadFailed]\<rparr>)
               \<and> length fallback_names = 4)"
  using assms by (cases entry) (simp_all add: read_names_from_file_def fallback_names_def)

theorem read_failure_returns_fallback_witness:
  "files unreadable_world ''names.txt'' = Some Unreadable
   \<and> fst (read_names_from_file ''names.txt'' unreadable_world)
       = Inr [[0x5C0F, 0x660E], [0x674E, 0x534E], [0x5F20, 0x4E09], [0x674E, 0x56DB]]
   \<and> logged (snd (read_names_from_file ''names.txt'' unreadable_world)) = [ReadFailed]"
proof -
  have h: "files unreadable_world ''names.txt'' = Some Unreadable"
    by (simp add: unreadable_world_def)
  have l: "logged unreadable_world = []" by (simp add: unreadable_world_def example_world_def)
  from read_failure_returns_fallback [OF h]
  have "read_names_from_file ''names.txt'' unreadable_world =
          (Inr fallback_names, unreadable_world\<lparr>logged := logged unreadable_world @ [ReadFailed]\<rparr>)"
    by simp
  with h l show ?thesis by (simp add: fallback_names_def)
qed

text \<open>
  C6. Called with a path whose file is read successfully, \<open>read_names_from_file\<close> returns
  the lines of the file, each stripped of the white space around it, without the lines
  that are empty after stripping, in their order in the file; nothing is written or
  logged. Every line is free of line boundaries, stripping removes white space only, and
  a stripped line that is not empty starts and ends with a character that is not white
  space.
\<close>

theorem readable_file_gives_trimmed_lines:
  assumes "files w file_path = Some (Text content)"
  shows "read_names_from_file file_path w =
           (Inr (filter (\<lambda>n. n \<noteq> []) (map strip (splitlines content))), w)
         \<and> (\<forall>line\<in>set (splitlines content).
               (\<forall>x\<in>set line. \<not> is_linebreak x)
               \<and> (\<exists>a b. line = a @ strip line @ b
                      \<and> (\<forall>x\<in>set a. is_space x) \<and> (\<forall>x\<in>set b. is_space x))
               \<and> (strip line \<noteq> [] \<longrightarrow>
                      \<not> is_space (hd (strip line)) \<and> \<not> is_space (last (strip line))))"
proof -
  from assms
  have "read_names_from_file file_path w =
          (Inr (filter (\<lambda>n. n \<noteq> []) (map strip (splitlines content))), w)"
    by (simp only: read_names_from_file_def option.case fs_entry.case kept_names_eq)
  moreover have "\<forall>x\<in>set line. \<not> is_linebreak x" if "line \<in> set (splitlines content)" for line
    using that splitlines_no_linebreak by blast
  ultimately show ?thesis using strip_decomp strip_trimmed by blast
qed

theorem readable_file_gives_trimmed_lines_witness:
  "files roster_file_world ''names.txt''
     = Some (Text [0x20, 0x61, 0x20, 0x0D, 0x0A, 0x0A, 0x09, 0x62, 0x0A])
   \<and> splitlines [0x20, 0x61, 0x20, 0x0D, 0x0A, 0x0A, 0x09, 0x62, 0x0A]
       = [[0x20, 0x61, 0x20], [], [0x09, 0x62]]
   \<and> read_names_from_file ''names.txt'' roster_file_world
       = (Inr [[0x61], [0x62]], roster_file_world)"
proof -
  let ?c = "[0x20, 0x61, 0x20, 0x0D, 0x0A, 0x0A, 0x09, 0x62, 0x0A] :: pystr"
  have h: "files roster_file_world ''names.txt'' = Some (Text ?c)"
    by (simp add: roster_file_world_def)
  have l: "splitlines ?c = [[0x20, 0x61, 0x20], [], [0x09, 0x62]]"
    by (simp add: splitlines_def is_linebreak_def)
  have k: "filter (\<lambda>n. n \<noteq> []) (map strip (splitlines ?c)) = [[0x61], [0x62]]"
    by (simp add: splitlines_def is_linebreak_def strip_def is_space_def)
  from readable_file_gives_trimmed_lines [OF h, THEN conjunct1]
  have "read_names_from_file ''names.txt'' roster_file_world = (Inr [[0x61], [0x62]], roster_file_world)"
    by (simp only: k)
  with h l show ?thesis by (simp only: simp_thms)
qed

text \<open>
  A roster file with blank lines only is read successfully and gives the empty roster.
\<close>

theorem blank_file_gives_empty_roster_counterexample:
  "files blank_file_world ''names.txt'' = Some (Text [0x0A, 0x20, 0x0A])
   \<and> read_names_from_file ''names.txt'' blank_file_world = (Inr [], blank_file_world)"
proof -
  have h: "files blank_file_world ''names.txt'' = Some (Text [0x0A, 0x20, 0x0A])"
    by (simp add: blank_file_world_def)
  have "[strip name. name \<leftarrow> splitlines [0x0A, 0x20, 0x0A], strip name \<noteq> []] = []"
    by (simp add: splitlines_def is_linebreak_def strip_def is_space_def)
  with h show ?thesis by (simp add: read_names_from_file_def)
qed

text \<open>
  C7, with the blank file set apart. Whenever \<open>read_names_from_file\<close> returns, the sequence it returns is empty
  exactly when the file exists, is read successfully and contains nothing but white
  space; in every other case (default names, fallback names, a file with a name in it)
  it is not empty.
\<close>

theorem loaded_roster_empty_iff_blank_file:
  assumes "read_names_from_file file_path w = (Inr ns, w')"
  shows "ns = [] \<longleftrightarrow>
           (\<exists>content. files w file_path = Some (Text content) \<and> (\<forall>x\<in>set content. is_space x))"
proof (cases "files w file_path")
  case None
  with assms have "ns = default_names"
    by (simp add: read_names_from_file_def split: if_splits)
  with None show ?thesis by (simp add: default_names_def)
next
  case (Some entry)
  show ?thesis
  proof (cases entry)
    case (Text content)
    with Some assms
    have "ns = [strip name. name \<leftarrow> splitlines content, strip name \<noteq> []]"
      by (simp add: read_names_from_file_def)
    then have "ns = [] \<longleftrightarrow> (\<forall>x\<in>set content. is_space x)"
      by (simp only: no_names_iff_blank)
    with Some Text show ?thesis by simp
  next
    case Unreadable
    with Some assms have "ns = fallback_names" by (simp add: read_names_from_file_def)
    with Some Unreadable show ?thesis by (simp add: fallback_names_def)
  qed
qed

theorem loaded_roster_empty_iff_blank_file_witness:
  "read_names_from_file ''names.txt'' roster_file_world
     = (Inr [[0x61], [0x62]], roster_file_world)
   \<and> files roster_file_world ''names.txt''
       = Some (Text [0x20, 0x61, 0x20, 0x0D, 0x0A, 0x0A, 0x09, 0x62, 0x0A])
   \<and> \<not> list_all is_space [0x20, 0x61, 0x20, 0x0D, 0x0A, 0x0A, 0x09, 0x62, 0x0A]"
proof -
  let ?c = "[0x20, 0x61, 0x20, 0x0D, 0x0A, 0x0A, 0x09, 0x62, 0x0A] :: pystr"
  have h: "files roster_file_world ''names.txt'' = Some (Text ?c)"
    by (simp add: roster_file_world_def)
  have "[strip name. name \<leftarrow> splitlines ?c, strip name \<noteq> []] = [[0x61], [0x62]]"
    by (simp add: splitlines_def is_linebreak_def strip_def is_space_def)
  with h have r: "read_names_from_file ''names.txt'' roster_file_world
                    = (Inr [[0x61], [0x62]], roster_file_world)"
    by (simp add: read_names_from_file_def)
  from loaded_roster_empty_iff_blank_file [OF r] h
  have "\<not> (\<forall>x\<in>set ?c. is_space x)" by simp
  then have "\<not> list_all is_space ?c" unfolding list_all_iff .
  with r h show ?thesis by (simp only: simp_thms)
qed

end
